theory Spec2Isabelle
  imports Main
begin

section \<open>Data model\<close>

text \<open>
  A board is the flat JavaScript array of the game: every cell is \<open>null\<close>,
  \<open>'X'\<close> or \<open>'O'\<close>. A cell is a \<open>mark option\<close> (\<open>None\<close> is \<open>null\<close>), and
  the winner returned by \<open>computeWinner\<close> is a \<open>mark option\<close> too. The numbers
  \<open>size\<close> (written \<open>sz\<close>, since \<open>size\<close> is a constant of HOL) and
  \<open>winLength\<close> are integers, array indices are naturals.
\<close>

datatype mark = MarkX | MarkO

type_synonym cell = "mark option"

type_synonym board = "cell list"

text \<open>
  \<open>board[i]\<close> for a number \<open>i\<close>: reading outside the array yields \<open>undefined\<close>
  (the outer \<open>None\<close>), which is falsy and different from every mark.
\<close>

definition js_get :: "board \<Rightarrow> int \<Rightarrow> cell option" where
  "js_get b i = (if 0 \<le> i \<and> i < int (length b) then Some (b ! nat i) else None)"

text \<open>
  A loop whose body may \<open>return\<close>: the first iteration that returns decides, later ones
  do not run.
\<close>

fun first_some :: "('a \<Rightarrow> 'b option) \<Rightarrow> 'a list \<Rightarrow> 'b option" where
  "first_some f [] = None"
| "first_some f (x # xs) = (case f x of Some y \<Rightarrow> Some y | None \<Rightarrow> first_some f xs)"

text \<open>
  The numbers of JavaScript that the code meets: integers, \<open>-Infinity\<close> (the
  initial best score), \<open>Infinity\<close> (the number that a request may carry as
  \<open>1e999\<close>) and \<open>NaN\<close> (what \<open>evaluateCell\<close> computes when \<open>size\<close> is 0).
  \<open>js_gt\<close> is JavaScript's \<open>>\<close> on them: every comparison with \<open>NaN\<close> is
  false.
\<close>

datatype jsnum = NaN | NegInfinity | Num int | PosInfinity

fun js_gt :: "jsnum \<Rightarrow> jsnum \<Rightarrow> bool" where
  "js_gt (Num a) (Num b) = (a > b)"
| "js_gt (Num a) NegInfinity = True"
| "js_gt PosInfinity (Num b) = True"
| "js_gt PosInfinity NegInfinity = True"
| "js_gt _ _ = False"

text \<open>
  JavaScript's \<open>a % b\<close> on integers with \<open>b\<close> not 0: the remainder of the division
  truncated towards zero, with the sign of \<open>a\<close>.
\<close>

definition js_rem :: "int \<Rightarrow> int \<Rightarrow> int" where
  "js_rem a b = sgn a * (\<bar>a\<bar> mod \<bar>b\<bar>)"

section \<open>The win detector of the user interface (App.jsx)\<close>

text \<open>
  The body shared by the four scans: \<open>v = board[i0]\<close>; if \<open>v\<close> is truthy, the cells
  \<open>board[i0 + k * step]\<close> for \<open>k = 1 .. winLength - 1\<close> are compared with \<open>v\<close> by
  \<open>!==\<close>; when none differs, \<open>v\<close> is returned.
\<close>

definition winAt :: "board \<Rightarrow> int \<Rightarrow> int \<Rightarrow> int \<Rightarrow> mark option" where
  "winAt b winLength i0 step =
     (case js_get b i0 of
        Some (Some v) \<Rightarrow>
          (if list_all (\<lambda>k. js_get b (i0 + k * step) = Some (Some v)) [1..winLength - 1]
           then Some v else None)
      | _ \<Rightarrow> None)"

definition scanRows :: "board \<Rightarrow> int \<Rightarrow> int \<Rightarrow> mark option" where
  "scanRows b sz winLength =
     first_some (\<lambda>(r, c). winAt b winLength (r * sz + c) 1)
       (concat (map (\<lambda>r. map (\<lambda>c. (r, c)) [0..sz - winLength]) [0..sz - 1]))"

definition scanCols :: "board \<Rightarrow> int \<Rightarrow> int \<Rightarrow> mark option" where
  "scanCols b sz winLength =
     first_some (\<lambda>(c, r). winAt b winLength (r * sz + c) sz)
       (concat (map (\<lambda>c. map (\<lambda>r. (c, r)) [0..sz - winLength]) [0..sz - 1]))"

definition scanDiagDR :: "board \<Rightarrow> int \<Rightarrow> int \<Rightarrow> mark option" where
  "scanDiagDR b sz winLength =
     first_some (\<lambda>(r, c). winAt b winLength (r * sz + c) (sz + 1))
       (concat (map (\<lambda>r. map (\<lambda>c. (r, c)) [0..sz - winLength]) [0..sz - winLength]))"

definition scanDiagDL :: "board \<Rightarrow> int \<Rightarrow> int \<Rightarrow> mark option" where
  "scanDiagDL b sz winLength =
     first_some (\<lambda>(r, c). winAt b winLength (r * sz + c) (sz - 1))
       (concat (map (\<lambda>r. map (\<lambda>c. (r, c)) [winLength - 1..sz - 1]) [0..sz - winLength]))"

definition computeWinner :: "board \<Rightarrow> int \<Rightarrow> int \<Rightarrow> mark option" where
  "computeWinner b sz winLength =
     (if scanRows b sz winLength \<noteq> None then scanRows b sz winLength
      else if scanCols b sz winLength \<noteq> None then scanCols b sz winLength
      else if scanDiagDR b sz winLength \<noteq> None then scanDiagDR b sz winLength
      else scanDiagDL b sz winLength)"

section \<open>The move selector of the user interface (App.jsx)\<close>

text \<open>
  \<open>findImmediateMove\<close>: the first index \<open>i\<close> of the array, in ascending order, whose
  cell is \<open>null\<close> and for which the copy of the board with \<open>player\<close> at \<open>i\<close> is won
  by \<open>player\<close>; \<open>null\<close> (\<open>None\<close>) when there is none.
\<close>

definition findImmediateMove :: "board \<Rightarrow> int \<Rightarrow> int \<Rightarrow> mark \<Rightarrow> nat option" where
  "findImmediateMove b sz winLength player =
     first_some (\<lambda>i. if b ! i \<noteq> None then None
                      else (let next = b[i := Some player]
                            in if computeWinner next sz winLength = Some player then Some i
                               else None))
       [0..<length b]"

definition getCenterIndex :: "int \<Rightarrow> int" where
  "getCenterIndex sz = (let center = sz div 2 in center * sz + center)"

text \<open>
  The window of \<open>evaluateCell\<close> for direction \<open>(dr, dc)\<close> and start offset \<open>t\<close>: the
  positions \<open>rr * size + cc\<close> for \<open>k = 0 .. winLength - 1\<close>, or \<open>null\<close> (\<open>None\<close>) as
  soon as one \<open>(rr, cc)\<close> is off the grid.
\<close>

definition windowCells :: "int \<Rightarrow> int \<Rightarrow> int \<Rightarrow> int \<times> int \<Rightarrow> int \<Rightarrow> int list option" where
  "windowCells sz winLength idx d t =
     (let rcs = map (\<lambda>k. (idx div sz + (t + k) * fst d, js_rem idx sz + (t + k) * snd d))
                  [0..winLength - 1]
      in if list_ex (\<lambda>(rr, cc). rr < 0 \<or> rr \<ge> sz \<or> cc < 0 \<or> cc \<ge> sz) rcs then None
         else Some (map (\<lambda>(rr, cc). rr * sz + cc) rcs))"

text \<open>
  The counting loop over a window: the cell at \<open>idx\<close> counts as \<open>'O'\<close>, the state is
  \<open>(countO, countX)\<close>.
\<close>

definition countStep :: "board \<Rightarrow> int \<Rightarrow> int \<times> int \<Rightarrow> int \<Rightarrow> int \<times> int" where
  "countStep b idx cnt pos =
     (let v = (if pos = idx then Some (Some MarkO) else js_get b pos)
      in if v = Some (Some MarkO) then (fst cnt + 1, snd cnt)
         else if v = Some (Some MarkX) then (fst cnt, snd cnt + 1)
         else cnt)"

definition windowScore :: "int \<Rightarrow> int \<times> int \<Rightarrow> int" where
  "windowScore winLength cnt =
     (let countO = fst cnt; countX = snd cnt
      in if countX = 0
         then countO * countO * 25 + (if countO = winLength - 1 then 200 else 0)
         else - (countX * countX * 20) - (if countX = winLength - 1 then 150 else 0))"

text \<open>What one iteration of the loop over \<open>t\<close> adds to the score.\<close>

definition windowDelta :: "board \<Rightarrow> int \<Rightarrow> int \<Rightarrow> int \<Rightarrow> int \<times> int \<Rightarrow> int \<Rightarrow> int" where
  "windowDelta b sz winLength idx d t =
     (case windowCells sz winLength idx d t of
        None \<Rightarrow> 0
      | Some cells \<Rightarrow>
          if idx \<notin> set cells then 0
          else windowScore winLength (foldl (countStep b idx) (0, 0) cells))"

text \<open>
  \<open>evaluateCell\<close>. The score only grows by \<open>+=\<close> and \<open>-=\<close> of numbers, so it is the
  sum of the center term, of the terms of the windows and of the corner term. With
  \<open>size\<close> 0 the center term is \<open>Math.max(0, 10 - NaN)\<close>, that is \<open>NaN\<close>,
  and the score stays \<open>NaN\<close>. The caller always passes a number as \<open>centerIndex\<close>.
\<close>

definition evaluateCell :: "board \<Rightarrow> int \<Rightarrow> int \<Rightarrow> int \<Rightarrow> int \<Rightarrow> jsnum" where
  "evaluateCell b sz winLength idx centerIndex =
     (if sz = 0 then NaN
      else
        let cr = centerIndex div sz; cc = js_rem centerIndex sz;
            r = idx div sz; c = js_rem idx sz;
            dist = \<bar>r - cr\<bar> + \<bar>c - cc\<bar>;
            corners = [0, sz - 1, sz * (sz - 1), sz * sz - 1]
        in Num (max 0 (10 - dist)
                + sum_list (map (\<lambda>d. sum_list (map (windowDelta b sz winLength idx d)
                                                    [- (winLength - 1)..0]))
                              [(0, 1), (1, 0), (1, 1), (1, -1)])
                + (if idx \<in> set corners then (if sz = 3 then 15 else 5) else 0)))"

text \<open>
  The scan of the heuristic tier: the state is \<open>(bestScore, bestIdx)\<close>, replaced only
  by a strictly greater score.
\<close>

definition bestStep :: "board \<Rightarrow> int \<Rightarrow> int \<Rightarrow> int \<Rightarrow> jsnum \<times> nat \<Rightarrow> nat \<Rightarrow> jsnum \<times> nat" where
  "bestStep b sz winLength centerIndex best idx =
     (let score = evaluateCell b sz winLength (int idx) centerIndex
      in if js_gt score (fst best) then (score, idx) else best)"

definition getSmartAiMove :: "board \<Rightarrow> int \<Rightarrow> int \<Rightarrow> nat option" where
  "getSmartAiMove b sz winLength =
     (case findImmediateMove b sz winLength MarkO of
        Some winMove \<Rightarrow> Some winMove
      | None \<Rightarrow>
     (case findImmediateMove b sz winLength MarkX of
        Some blockMove \<Rightarrow> Some blockMove
      | None \<Rightarrow>
          (let empty = filter (\<lambda>i. b ! i = None) [0..<length b]
           in if empty = [] then None
              else let centerIndex = getCenterIndex sz
                   in Some (snd (foldl (bestStep b sz winLength centerIndex)
                                   (NegInfinity, hd empty) empty)))))"

section \<open>The win detector of the server (server/index.js)\<close>

text \<open>
  The server holds its own copy of the game logic. It is embedded function by function
  from \<open>server/index.js\<close>, under the names of the source prefixed by \<open>srv_\<close>.
\<close>

definition srv_winAt :: "board \<Rightarrow> int \<Rightarrow> int \<Rightarrow> int \<Rightarrow> mark option" where
  "srv_winAt b winLength i0 step =
     (case js_get b i0 of
        Some (Some v) \<Rightarrow>
          (if list_all (\<lambda>k. js_get b (i0 + k * step) = Some (Some v)) [1..winLength - 1]
           then Some v else None)
      | _ \<Rightarrow> None)"

definition srv_scanRows :: "board \<Rightarrow> int \<Rightarrow> int \<Rightarrow> mark option" where
  "srv_scanRows b sz winLength =
     first_some (\<lambda>(r, c). srv_winAt b winLength (r * sz + c) 1)
       (concat (map (\<lambda>r. map (\<lambda>c. (r, c)) [0..sz - winLength]) [0..sz - 1]))"

definition srv_scanCols :: "board \<Rightarrow> int \<Rightarrow> int \<Rightarrow> mark option" where
  "srv_scanCols b sz winLength =
     first_some (\<lambda>(c, r). srv_winAt b winLength (r * sz + c) sz)
       (concat (map (\<lambda>c. map (\<lambda>r. (c, r)) [0..sz - winLength]) [0..sz - 1]))"

definition srv_scanDiagDR :: "board \<Rightarrow> int \<Rightarrow> int \<Rightarrow> mark option" where
  "srv_scanDiagDR b sz winLength =
     first_some (\<lambda>(r, c). srv_winAt b winLength (r * sz + c) (sz + 1))
       (concat (map (\<lambda>r. map (\<lambda>c. (r, c)) [0..sz - winLength]) [0..sz - winLength]))"

definition srv_scanDiagDL :: "board \<Rightarrow> int \<Rightarrow> int \<Rightarrow> mark option" where
  "srv_scanDiagDL b sz winLength =
     first_some (\<lambda>(r, c). srv_winAt b winLength (r * sz + c) (sz - 1))
       (concat (map (\<lambda>r. map (\<lambda>c. (r, c)) [winLength - 1..sz - 1]) [0..sz - winLength]))"

definition srv_computeWinner :: "board \<Rightarrow> int \<Rightarrow> int \<Rightarrow> mark option" where
  "srv_computeWinner b sz winLength =
     (if srv_scanRows b sz winLength \<noteq> None then srv_scanRows b sz winLength
      else if srv_scanCols b sz winLength \<noteq> None then srv_scanCols b sz winLength
      else if srv_scanDiagDR b sz winLength \<noteq> None then srv_scanDiagDR b sz winLength
      else srv_scanDiagDL b sz winLength)"

section \<open>The move selector of the server (server/index.js)\<close>

definition srv_findImmediateMove :: "board \<Rightarrow> int \<Rightarrow> int \<Rightarrow> mark \<Rightarrow> nat option" where
  "srv_findImmediateMove b sz winLength player =
     first_some (\<lambda>i. if b ! i \<noteq> None then None
                      else (let next = b[i := Some player]
                            in if srv_computeWinner next sz winLength = Some player then Some i
                               else None))
       [0..<length b]"

definition srv_getCenterIndex :: "int \<Rightarrow> int" where
  "srv_getCenterIndex sz = (let center = sz div 2 in center * sz + center)"

definition srv_windowCells :: "int \<Rightarrow> int \<Rightarrow> int \<Rightarrow> int \<times> int \<Rightarrow> int \<Rightarrow> int list option" where
  "srv_windowCells sz winLength idx d t =
     (let rcs = map (\<lambda>k. (idx div sz + (t + k) * fst d, js_rem idx sz + (t + k) * snd d))
                  [0..winLength - 1]
      in if list_ex (\<lambda>(rr, cc). rr < 0 \<or> rr \<ge> sz \<or> cc < 0 \<or> cc \<ge> sz) rcs then None
         else Some (map (\<lambda>(rr, cc). rr * sz + cc) rcs))"

definition srv_countStep :: "board \<Rightarrow> int \<Rightarrow> int \<times> int \<Rightarrow> int \<Rightarrow> int \<times> int" where
  "srv_countStep b idx cnt pos =
     (let v = (if pos = idx then Some (Some MarkO) else js_get b pos)
      in if v = Some (Some MarkO) then (fst cnt + 1, snd cnt)
         else if v = Some (Some MarkX) then (fst cnt, snd cnt + 1)
         else cnt)"

definition srv_windowScore :: "int \<Rightarrow> int \<times> int \<Rightarrow> int" where
  "srv_windowScore winLength cnt =
     (let countO = fst cnt; countX = snd cnt
      in if countX = 0
         then countO * countO * 25 + (if countO = winLength - 1 then 200 else 0)
         else - (countX * countX * 20) - (if countX = winLength - 1 then 150 else 0))"

definition srv_windowDelta :: "board \<Rightarrow> int \<Rightarrow> int \<Rightarrow> int \<Rightarrow> int \<times> int \<Rightarrow> int \<Rightarrow> int" where
  "srv_windowDelta b sz winLength idx d t =
     (case srv_windowCells sz winLength idx d t of
        None \<Rightarrow> 0
      | Some cells \<Rightarrow>
          if idx \<notin> set cells then 0
          else srv_windowScore winLength (foldl (srv_countStep b idx) (0, 0) cells))"

definition srv_evaluateCell :: "board \<Rightarrow> int \<Rightarrow> int \<Rightarrow> int \<Rightarrow> int \<Rightarrow> jsnum" where
  "srv_evaluateCell b sz winLength idx centerIndex =
     (if sz = 0 then NaN
      else
        let cr = centerIndex div sz; cc = js_rem centerIndex sz;
            r = idx div sz; c = js_rem idx sz;
            dist = \<bar>r - cr\<bar> + \<bar>c - cc\<bar>;
            corners = [0, sz - 1, sz * (sz - 1), sz * sz - 1]
        in Num (max 0 (10 - dist)
                + sum_list (map (\<lambda>d. sum_list (map (srv_windowDelta b sz winLength idx d)
                                                    [- (winLength - 1)..0]))
                              [(0, 1), (1, 0), (1, 1), (1, -1)])
                + (if idx \<in> set corners then (if sz = 3 then 15 else 5) else 0)))"

definition srv_bestStep :: "board \<Rightarrow> int \<Rightarrow> int \<Rightarrow> int \<Rightarrow> jsnum \<times> nat \<Rightarrow> nat \<Rightarrow> jsnum \<times> nat" where
  "srv_bestStep b sz winLength centerIndex best idx =
     (let score = srv_evaluateCell b sz winLength (int idx) centerIndex
      in if js_gt score (fst best) then (score, idx) else best)"

definition srv_getSmartAiMove :: "board \<Rightarrow> int \<Rightarrow> int \<Rightarrow> nat option" where
  "srv_getSmartAiMove b sz winLength =
     (case srv_findImmediateMove b sz winLength MarkO of
        Some winMove \<Rightarrow> Some winMove
      | None \<Rightarrow>
     (case srv_findImmediateMove b sz winLength MarkX of
        Some blockMove \<Rightarrow> Some blockMove
      | None \<Rightarrow>
          (let empty = filter (\<lambda>i. b ! i = None) [0..<length b]
           in if empty = [] then None
              else let centerIndex = srv_getCenterIndex sz
                   in Some (snd (foldl (srv_bestStep b sz winLength centerIndex)
                                   (NegInfinity, hd empty) empty)))))"

section \<open>The arithmetic of JavaScript on these numbers\<close>















section \<open>Loops that may not end\<close>




section \<open>The game logic of the server on the numbers of a request\<close>
















section \<open>The HTTP handlers of the server (server/index.js)\<close>










section \<open>Lines of a board, as the specification words them\<close>

text \<open>
  The four directions of a line, as (row step, column step): horizontal, vertical,
  diagonal down-right, diagonal down-left.
\<close>

definition directions :: "(int \<times> int) list" where
  "directions = [(0, 1), (1, 0), (1, 1), (1, -1)]"

definition in_grid :: "int \<Rightarrow> int \<Rightarrow> int \<Rightarrow> bool" where
  "in_grid sz r c = (0 \<le> r \<and> r < sz \<and> 0 \<le> c \<and> c < sz)"

text \<open>
  The run of \<open>winLength\<close> cells that starts at row \<open>r\<close>, column \<open>c\<close> and advances by
  \<open>(dr, dc)\<close> is a line of mark \<open>m\<close> when each of its cells lies on the grid and holds
  \<open>m\<close>. No run has a negative number of cells.
\<close>

definition is_run :: "board \<Rightarrow> int \<Rightarrow> int \<Rightarrow> mark \<Rightarrow> int \<Rightarrow> int \<Rightarrow> int \<times> int \<Rightarrow> bool" where
  "is_run b sz winLength m r c d =
     (0 \<le> winLength \<and>
      list_all (\<lambda>k. in_grid sz (r + k * fst d) (c + k * snd d) \<and>
                   js_get b ((r + k * fst d) * sz + (c + k * snd d)) = Some (Some m))
       [0..winLength - 1])"

definition has_line :: "board \<Rightarrow> int \<Rightarrow> int \<Rightarrow> mark \<Rightarrow> bool" where
  "has_line b sz winLength m =
     list_ex (\<lambda>d. list_ex (\<lambda>r. list_ex (\<lambda>c. is_run b sz winLength m r c d)
        [0..sz - 1]) [0..sz - 1]) directions"

section \<open>The score of a cell, as the specification words it\<close>

text \<open>
  The cells of the window of \<open>winLength\<close> cells that starts at \<open>(r0, c0)\<close> and
  advances by \<open>d\<close>.
\<close>

definition window_of :: "int \<Rightarrow> int \<times> int \<Rightarrow> int \<times> int \<Rightarrow> (int \<times> int) list" where
  "window_of winLength d s = map (\<lambda>k. (fst s + k * fst d, snd s + k * snd d)) [0..winLength - 1]"

text \<open>
  The starts of the windows in direction \<open>d\<close> that stay on the grid and contain the
  cell \<open>p\<close>, among all the cells of the grid.
\<close>

definition windows_through :: "int \<Rightarrow> int \<Rightarrow> int \<times> int \<Rightarrow> int \<times> int \<Rightarrow> (int \<times> int) list" where
  "windows_through sz winLength d p =
     filter (\<lambda>s. list_all (\<lambda>q. in_grid sz (fst q) (snd q)) (window_of winLength d s) \<and>
                  p \<in> set (window_of winLength d s))
       (concat (map (\<lambda>r0. map (\<lambda>c0. (r0, c0)) [0..sz - 1]) [0..sz - 1]))"

text \<open>
  The value of one window for the candidate \<open>p\<close>: \<open>ai\<close> counts the candidate and the
  cells holding the mark of the computer, \<open>opp\<close> the other cells holding the mark of
  the opponent.
\<close>

definition window_value :: "board \<Rightarrow> int \<Rightarrow> int \<Rightarrow> int \<times> int \<Rightarrow> (int \<times> int) list \<Rightarrow> int" where
  "window_value b sz winLength p cells =
     (let ai = int (length (filter (\<lambda>q. q = p \<or> js_get b (fst q * sz + snd q) = Some (Some MarkO)) cells));
          opp = int (length (filter (\<lambda>q. q \<noteq> p \<and> js_get b (fst q * sz + snd q) = Some (Some MarkX)) cells))
      in if opp = 0 then ai\<^sup>2 * 25 + (if ai = winLength - 1 then 200 else 0)
         else - (opp\<^sup>2 * 20) - (if opp = winLength - 1 then 150 else 0))"

definition score_ref :: "board \<Rightarrow> int \<Rightarrow> int \<Rightarrow> int \<Rightarrow> int" where
  "score_ref b sz winLength idx =
     (let p = (idx div sz, idx mod sz); center = sz div 2
      in max 0 (10 - (\<bar>fst p - center\<bar> + \<bar>snd p - center\<bar>))
         + (\<Sum>d\<leftarrow>directions. \<Sum>s\<leftarrow>windows_through sz winLength d p.
              window_value b sz winLength p (window_of winLength d s))
         + (if idx = 0 \<or> idx = sz - 1 \<or> idx = sz * (sz - 1) \<or> idx = sz * sz - 1
            then (if sz = 3 then 15 else 5) else 0))"

section \<open>Notions of the specification about moves, marks and payloads\<close>

text \<open>
  The empty cell \<open>i\<close> of the board is an immediate win for \<open>player\<close>: the board with
  the mark of \<open>player\<close> placed at \<open>i\<close> is won by \<open>player\<close>.
\<close>

definition wins_at :: "board \<Rightarrow> int \<Rightarrow> int \<Rightarrow> mark \<Rightarrow> nat \<Rightarrow> bool" where
  "wins_at b sz winLength player i =
     (i < length b \<and> b ! i = None \<and> computeWinner (b[i := Some player]) sz winLength = Some player)"

text \<open>Relabelling the marks: \<open>'X'\<close> becomes \<open>'O'\<close> and \<open>'O'\<close> becomes \<open>'X'\<close>.\<close>

fun swap_mark :: "mark \<Rightarrow> mark" where
  "swap_mark MarkX = MarkO"
| "swap_mark MarkO = MarkX"

definition swap_board :: "board \<Rightarrow> board" where
  "swap_board b = map (map_option swap_mark) b"



section \<open>Auxiliary notions of the proofs\<close>

text \<open>A line of mark \<open>m\<close> in one direction \<open>d\<close>.\<close>

definition run_at :: "board \<Rightarrow> int \<Rightarrow> int \<Rightarrow> mark \<Rightarrow> int \<times> int \<Rightarrow> bool" where
  "run_at b sz w m d = (\<exists>r\<in>{0..sz - 1}. \<exists>c\<in>{0..sz - 1}. is_run b sz w m r c d)"

text \<open>The flat position of a grid cell.\<close>

definition pos_of :: "int \<Rightarrow> int \<times> int \<Rightarrow> int" where
  "pos_of sz q = fst q * sz + snd q"

text \<open>
  The grid cell where the window of offset \<open>t\<close> through the cell of index \<open>idx\<close>
  starts, and the windows that stay on the grid.
\<close>

definition start_at :: "int \<Rightarrow> int \<times> int \<Rightarrow> int \<Rightarrow> int \<Rightarrow> int \<times> int" where
  "start_at sz d idx t = (idx div sz + t * fst d, idx mod sz + t * snd d)"

definition on_grid :: "int \<Rightarrow> (int \<times> int) list \<Rightarrow> bool" where
  "on_grid sz rcs = list_all (\<lambda>q. in_grid sz (fst q) (snd q)) rcs"

text \<open>The scan for the best score, over any score function.\<close>

definition best_of :: "(nat \<Rightarrow> int) \<Rightarrow> jsnum \<times> nat \<Rightarrow> nat \<Rightarrow> jsnum \<times> nat" where
  "best_of f best idx = (if js_gt (Num (f idx)) (fst best) then (Num (f idx), idx) else best)"



section \<open>Early-return loops\<close>

lemma first_some_None_iff: "first_some f xs = None \<longleftrightarrow> (\<forall>x\<in>set xs. f x = None)"
  by (induction xs) (auto split: option.splits)

lemma first_some_SomeD: "first_some f xs = Some y \<Longrightarrow> \<exists>x\<in>set xs. f x = Some y"
  by (induction xs) (auto split: option.splits)

lemma first_some_find:
  "first_some (\<lambda>x. if P x then Some x else None) xs = List.find P xs"
  by (induction xs) auto

lemma first_some_cong:
  "(\<And>x. x \<in> set xs \<Longrightarrow> f x = g x) \<Longrightarrow> first_some f xs = first_some g xs"
  by (induction xs) (auto split: option.splits)

lemma first_some_map_option:
  "first_some (\<lambda>x. map_option g (f x)) xs = map_option g (first_some f xs)"
  by (induction xs) (auto split: option.splits)

lemma find_upt_Some_iff:
  "List.find P [0..<n] = Some i \<longleftrightarrow> i < n \<and> P i \<and> (\<forall>j<i. \<not> P j)"
proof
  assume "List.find P [0..<n] = Some i"
  then obtain k where k: "k < n" and p: "P ([0..<n] ! k)" and i: "i = [0..<n] ! k"
    and m: "\<forall>j<k. \<not> P ([0..<n] ! j)"
    unfolding find_Some_iff by auto
  from k i have ik: "i = k" by simp
  have "\<not> P j" if "j < i" for j
  proof -
    from that ik k have "j < k" "j < n" by simp_all
    with m show ?thesis by fastforce
  qed
  with k p ik show "i < n \<and> P i \<and> (\<forall>j<i. \<not> P j)" by simp
next
  assume h: "i < n \<and> P i \<and> (\<forall>j<i. \<not> P j)"
  then have "i < length [0..<n] \<and> P ([0..<n] ! i) \<and> i = [0..<n] ! i \<and> (\<forall>j<i. \<not> P ([0..<n] ! j))"
    by simp
  then show "List.find P [0..<n] = Some i"
    unfolding find_Some_iff by blast
qed

section \<open>The two copies of the game logic\<close>

lemma srv_winAt_eq: "srv_winAt = winAt"
  by (intro ext) (simp only: srv_winAt_def winAt_def)

lemma srv_computeWinner_eq: "srv_computeWinner = computeWinner"
  by (intro ext) (simp only: srv_computeWinner_def computeWinner_def srv_scanRows_def scanRows_def
      srv_scanCols_def scanCols_def srv_scanDiagDR_def scanDiagDR_def srv_scanDiagDL_def
      scanDiagDL_def srv_winAt_eq)

lemma srv_findImmediateMove_eq: "srv_findImmediateMove = findImmediateMove"
  by (intro ext) (simp only: srv_findImmediateMove_def findImmediateMove_def srv_computeWinner_eq)

lemma srv_windowDelta_eq: "srv_windowDelta = windowDelta"
proof -
  have "srv_windowCells = windowCells"
    by (intro ext) (simp only: srv_windowCells_def windowCells_def)
  moreover have "srv_countStep = countStep"
    by (intro ext) (simp only: srv_countStep_def countStep_def)
  moreover have "srv_windowScore = windowScore"
    by (intro ext) (simp only: srv_windowScore_def windowScore_def)
  ultimately show ?thesis
    by (intro ext) (simp only: srv_windowDelta_def windowDelta_def)
qed

lemma srv_evaluateCell_eq: "srv_evaluateCell = evaluateCell"
  by (intro ext) (simp only: srv_evaluateCell_def evaluateCell_def srv_windowDelta_eq)

lemma srv_getSmartAiMove_eq: "srv_getSmartAiMove = getSmartAiMove"
proof -
  have "srv_bestStep = bestStep"
    by (intro ext) (simp only: srv_bestStep_def bestStep_def srv_evaluateCell_eq)
  moreover have "srv_getCenterIndex = getCenterIndex"
    by (intro ext) (simp only: srv_getCenterIndex_def getCenterIndex_def)
  ultimately show ?thesis
    by (intro ext) (simp only: srv_getSmartAiMove_def getSmartAiMove_def srv_findImmediateMove_eq)
qed

text \<open>
  Claim C8. For every board, size and win length, the \<open>computeWinner\<close> and the
  \<open>getSmartAiMove\<close> of the user interface return what the \<open>computeWinner\<close> and the
  \<open>getSmartAiMove\<close> of the server return.
\<close>

theorem ui_server_equal:
  "computeWinner b sz winLength = srv_computeWinner b sz winLength \<and>
   getSmartAiMove b sz winLength = srv_getSmartAiMove b sz winLength"
  by (simp add: srv_computeWinner_eq srv_getSmartAiMove_eq)

theorem ui_server_equal_witness:
  "srv_computeWinner [Some MarkX, Some MarkO, None, None, Some MarkX, Some MarkO, None, None, Some MarkX] 3 3
     = Some MarkX \<and>
   srv_getSmartAiMove [Some MarkX, Some MarkO, None, None, Some MarkX, None, None, None, None] 3 3 = Some 8"
proof -
  have "computeWinner [Some MarkX, Some MarkO, None, None, Some MarkX, Some MarkO, None, None, Some MarkX] 3 3
     = Some MarkX" by code_simp
  moreover have "getSmartAiMove [Some MarkX, Some MarkO, None, None, Some MarkX, None, None, None, None] 3 3
     = Some 8" by code_simp
  ultimately show ?thesis
    using ui_server_equal[of "[Some MarkX, Some MarkO, None, None, Some MarkX, Some MarkO, None, None, Some MarkX]" 3 3]
      ui_server_equal[of "[Some MarkX, Some MarkO, None, None, Some MarkX, None, None, None, None]" 3 3]
    by simp
qed

section \<open>The win detector finds exactly the lines\<close>

lemma winAt_Some_iff:
  assumes "0 < w"
  shows "winAt b w i0 step = Some m \<longleftrightarrow> (\<forall>k\<in>{0..w - 1}. js_get b (i0 + k * step) = Some (Some m))"
proof
  assume h: "winAt b w i0 step = Some m"
  then have a: "js_get b i0 = Some (Some m)"
    by (auto simp: winAt_def split: option.splits if_splits)
  with h have r: "\<forall>k\<in>{1..w - 1}. js_get b (i0 + k * step) = Some (Some m)"
    by (auto simp: winAt_def list_all_iff split: if_splits)
  show "\<forall>k\<in>{0..w - 1}. js_get b (i0 + k * step) = Some (Some m)"
  proof
    fix k assume "k \<in> {0..w - 1}"
    then have "k = 0 \<or> k \<in> {1..w - 1}" by auto
    with a r show "js_get b (i0 + k * step) = Some (Some m)" by auto
  qed
next
  assume h: "\<forall>k\<in>{0..w - 1}. js_get b (i0 + k * step) = Some (Some m)"
  from assms have "0 \<in> {0..w - 1}" by simp
  with h have "js_get b (i0 + 0 * step) = Some (Some m)" by blast
  then have a: "js_get b i0 = Some (Some m)" by simp
  from h have "\<forall>k\<in>{1..w - 1}. js_get b (i0 + k * step) = Some (Some m)" by auto
  with a show "winAt b w i0 step = Some m"
    by (simp add: winAt_def list_all_iff)
qed

lemma has_line_iff:
  "has_line b sz w m \<longleftrightarrow>
     run_at b sz w m (0, 1) \<or> run_at b sz w m (1, 0) \<or> run_at b sz w m (1, 1) \<or> run_at b sz w m (1, -1)"
  by (simp add: has_line_def directions_def run_at_def list_ex_iff)



lemma grid_line:
  assumes "0 < w" and "dr = 0 \<or> dr = 1" and "dc = -1 \<or> dc = 0 \<or> dc = 1"
  shows "(\<forall>k\<in>{0..w - 1}. in_grid sz (r + k * dr) (c + k * dc)) \<longleftrightarrow>
         in_grid sz r c \<and> in_grid sz (r + (w - 1) * dr) (c + (w - 1) * dc)"
proof
  assume h: "\<forall>k\<in>{0..w - 1}. in_grid sz (r + k * dr) (c + k * dc)"
  from assms(1) have "(0::int) \<in> {0..w - 1}" and "w - 1 \<in> {0..w - 1}" by simp_all
  from h[rule_format, OF this(1)] h[rule_format, OF this(2)]
  show "in_grid sz r c \<and> in_grid sz (r + (w - 1) * dr) (c + (w - 1) * dc)" by simp
next
  assume h: "in_grid sz r c \<and> in_grid sz (r + (w - 1) * dr) (c + (w - 1) * dc)"
  show "\<forall>k\<in>{0..w - 1}. in_grid sz (r + k * dr) (c + k * dc)"
  proof
    fix k assume "k \<in> {0..w - 1}"
    then have k: "0 \<le> k" "k \<le> w - 1" by simp_all
    from assms(2,3) h k show "in_grid sz (r + k * dr) (c + k * dc)"
      by (auto simp: in_grid_def)
  qed
qed

lemma is_run_iff:
  assumes "0 < w"
  shows "is_run b sz w m r c (dr, dc) \<longleftrightarrow>
    (\<forall>k\<in>{0..w - 1}. in_grid sz (r + k * dr) (c + k * dc)) \<and> winAt b w (r * sz + c) (dr * sz + dc) = Some m"
proof -
  have e: "js_get b ((r + k * dr) * sz + (c + k * dc)) = js_get b (r * sz + c + k * (dr * sz + dc))" for k
    by (simp add: algebra_simps)
  show ?thesis
    unfolding is_run_def list_all_iff winAt_Some_iff[OF assms] e set_upto fst_conv snd_conv
    using assms by auto
qed

lemma run_point:
  assumes "0 < w" and "dr = 0 \<or> dr = 1" and "dc = -1 \<or> dc = 0 \<or> dc = 1"
  shows "is_run b sz w m r c (dr, dc) \<longleftrightarrow>
     in_grid sz r c \<and> in_grid sz (r + (w - 1) * dr) (c + (w - 1) * dc) \<and>
     winAt b w (r * sz + c) (dr * sz + dc) = Some m"
  unfolding is_run_iff[OF assms(1)] grid_line[OF assms] by blast

lemma rows_point:
  assumes "0 < w"
  shows "(r \<in> {0..sz - 1} \<and> c \<in> {0..sz - 1} \<and> is_run b sz w m r c (0, 1)) \<longleftrightarrow>
         (r \<in> {0..sz - 1} \<and> c \<in> {0..sz - w} \<and> winAt b w (r * sz + c) 1 = Some m)"
  using assms run_point[OF assms, of 0 1 b sz m r c] by (auto simp: in_grid_def)

lemma cols_point:
  assumes "0 < w"
  shows "(r \<in> {0..sz - 1} \<and> c \<in> {0..sz - 1} \<and> is_run b sz w m r c (1, 0)) \<longleftrightarrow>
         (c \<in> {0..sz - 1} \<and> r \<in> {0..sz - w} \<and> winAt b w (r * sz + c) sz = Some m)"
  using assms run_point[OF assms, of 1 0 b sz m r c] by (auto simp: in_grid_def)

lemma dr_point:
  assumes "0 < w"
  shows "(r \<in> {0..sz - 1} \<and> c \<in> {0..sz - 1} \<and> is_run b sz w m r c (1, 1)) \<longleftrightarrow>
         (r \<in> {0..sz - w} \<and> c \<in> {0..sz - w} \<and> winAt b w (r * sz + c) (sz + 1) = Some m)"
  using assms run_point[OF assms, of 1 1 b sz m r c] by (auto simp: in_grid_def)

lemma dl_point:
  assumes "0 < w"
  shows "(r \<in> {0..sz - 1} \<and> c \<in> {0..sz - 1} \<and> is_run b sz w m r c (1, -1)) \<longleftrightarrow>
         (r \<in> {0..sz - w} \<and> c \<in> {w - 1..sz - 1} \<and> winAt b w (r * sz + c) (sz - 1) = Some m)"
  using assms run_point[OF assms, of 1 "-1" b sz m r c] by (auto simp: in_grid_def)

lemma scanRows_None:
  assumes "0 < w"
  shows "scanRows b sz w = None \<longleftrightarrow> (\<forall>m. \<not> run_at b sz w m (0, 1))"
proof -
  have "scanRows b sz w = None \<longleftrightarrow>
        (\<forall>r c. r \<in> {0..sz - 1} \<and> c \<in> {0..sz - w} \<longrightarrow> winAt b w (r * sz + c) 1 = None)"
    by (auto simp: scanRows_def first_some_None_iff)
  also have "\<dots> \<longleftrightarrow> (\<forall>m r c. \<not> (r \<in> {0..sz - 1} \<and> c \<in> {0..sz - w} \<and> winAt b w (r * sz + c) 1 = Some m))"
    by (metis not_Some_eq option.distinct(1))
  also have "\<dots> \<longleftrightarrow> (\<forall>m. \<not> run_at b sz w m (0, 1))"
    unfolding rows_point[OF assms, symmetric] run_at_def by blast
  finally show ?thesis .
qed

lemma scanRows_Some:
  assumes "0 < w" and "scanRows b sz w = Some m"
  shows "run_at b sz w m (0, 1)"
proof -
  from assms(2) obtain r c where "r \<in> {0..sz - 1} \<and> c \<in> {0..sz - w} \<and> winAt b w (r * sz + c) 1 = Some m"
    by (auto simp: scanRows_def dest!: first_some_SomeD)
  then show ?thesis
    unfolding rows_point[OF assms(1), symmetric] run_at_def by blast
qed

lemma scanCols_None:
  assumes "0 < w"
  shows "scanCols b sz w = None \<longleftrightarrow> (\<forall>m. \<not> run_at b sz w m (1, 0))"
proof -
  have "scanCols b sz w = None \<longleftrightarrow>
        (\<forall>r c. c \<in> {0..sz - 1} \<and> r \<in> {0..sz - w} \<longrightarrow> winAt b w (r * sz + c) sz = None)"
    by (auto simp: scanCols_def first_some_None_iff)
  also have "\<dots> \<longleftrightarrow> (\<forall>m r c. \<not> (c \<in> {0..sz - 1} \<and> r \<in> {0..sz - w} \<and> winAt b w (r * sz + c) sz = Some m))"
    by (metis not_Some_eq option.distinct(1))
  also have "\<dots> \<longleftrightarrow> (\<forall>m. \<not> run_at b sz w m (1, 0))"
    unfolding cols_point[OF assms, symmetric] run_at_def by blast
  finally show ?thesis .
qed

lemma scanCols_Some:
  assumes "0 < w" and "scanCols b sz w = Some m"
  shows "run_at b sz w m (1, 0)"
proof -
  from assms(2) obtain r c where "c \<in> {0..sz - 1} \<and> r \<in> {0..sz - w} \<and> winAt b w (r * sz + c) sz = Some m"
    by (auto simp: scanCols_def dest!: first_some_SomeD)
  then show ?thesis
    unfolding cols_point[OF assms(1), symmetric] run_at_def by blast
qed

lemma scanDiagDR_None:
  assumes "0 < w"
  shows "scanDiagDR b sz w = None \<longleftrightarrow> (\<forall>m. \<not> run_at b sz w m (1, 1))"
proof -
  have "scanDiagDR b sz w = None \<longleftrightarrow>
        (\<forall>r c. r \<in> {0..sz - w} \<and> c \<in> {0..sz - w} \<longrightarrow> winAt b w (r * sz + c) (sz + 1) = None)"
    by (auto simp: scanDiagDR_def first_some_None_iff)
  also have "\<dots> \<longleftrightarrow> (\<forall>m r c. \<not> (r \<in> {0..sz - w} \<and> c \<in> {0..sz - w} \<and> winAt b w (r * sz + c) (sz + 1) = Some m))"
    by (metis not_Some_eq option.distinct(1))
  also have "\<dots> \<longleftrightarrow> (\<forall>m. \<not> run_at b sz w m (1, 1))"
    unfolding dr_point[OF assms, symmetric] run_at_def by blast
  finally show ?thesis .
qed

lemma scanDiagDR_Some:
  assumes "0 < w" and "scanDiagDR b sz w = Some m"
  shows "run_at b sz w m (1, 1)"
proof -
  from assms(2) obtain r c where "r \<in> {0..sz - w} \<and> c \<in> {0..sz - w} \<and> winAt b w (r * sz + c) (sz + 1) = Some m"
    by (auto simp: scanDiagDR_def dest!: first_some_SomeD)
  then show ?thesis
    unfolding dr_point[OF assms(1), symmetric] run_at_def by blast
qed

lemma scanDiagDL_None:
  assumes "0 < w"
  shows "scanDiagDL b sz w = None \<longleftrightarrow> (\<forall>m. \<not> run_at b sz w m (1, -1))"
proof -
  have "scanDiagDL b sz w = None \<longleftrightarrow>
        (\<forall>r c. r \<in> {0..sz - w} \<and> c \<in> {w - 1..sz - 1} \<longrightarrow> winAt b w (r * sz + c) (sz - 1) = None)"
    by (auto simp: scanDiagDL_def first_some_None_iff)
  also have "\<dots> \<longleftrightarrow> (\<forall>m r c. \<not> (r \<in> {0..sz - w} \<and> c \<in> {w - 1..sz - 1} \<and> winAt b w (r * sz + c) (sz - 1) = Some m))"
    by (metis not_Some_eq option.distinct(1))
  also have "\<dots> \<longleftrightarrow> (\<forall>m. \<not> run_at b sz w m (1, -1))"
    unfolding dl_point[OF assms, symmetric] run_at_def by blast
  finally show ?thesis .
qed

lemma scanDiagDL_Some:
  assumes "0 < w" and "scanDiagDL b sz w = Some m"
  shows "run_at b sz w m (1, -1)"
proof -
  from assms(2) obtain r c where "r \<in> {0..sz - w} \<and> c \<in> {w - 1..sz - 1} \<and> winAt b w (r * sz + c) (sz - 1) = Some m"
    by (auto simp: scanDiagDL_def dest!: first_some_SomeD)
  then show ?thesis
    unfolding dl_point[OF assms(1), symmetric] run_at_def by blast
qed

lemma computeWinner_None_iff:
  assumes "0 < w"
  shows "computeWinner b sz w = None \<longleftrightarrow> (\<forall>m. \<not> has_line b sz w m)"
proof -
  have "computeWinner b sz w = None \<longleftrightarrow>
        scanRows b sz w = None \<and> scanCols b sz w = None \<and>
        scanDiagDR b sz w = None \<and> scanDiagDL b sz w = None"
    by (auto simp: computeWinner_def)
  then show ?thesis
    unfolding scanRows_None[OF assms] scanCols_None[OF assms] scanDiagDR_None[OF assms]
      scanDiagDL_None[OF assms] has_line_iff by blast
qed

lemma computeWinner_sound:
  assumes "0 < w" and "computeWinner b sz w = Some m"
  shows "has_line b sz w m"
proof -
  from assms(2) have "scanRows b sz w = Some m \<or> scanCols b sz w = Some m \<or>
        scanDiagDR b sz w = Some m \<or> scanDiagDL b sz w = Some m"
    by (auto simp: computeWinner_def split: if_splits)
  then show ?thesis
    unfolding has_line_iff
    using scanRows_Some[OF assms(1)] scanCols_Some[OF assms(1)] scanDiagDR_Some[OF assms(1)]
      scanDiagDL_Some[OF assms(1)] by blast
qed


text \<open>
  Claim C1, amended. For every board and every size, and for every win length of at
  least 1: \<open>computeWinner\<close>, in the user interface and in the server, returns none
  exactly when no mark has a horizontal, vertical or diagonal run of \<open>winLength\<close>
  cells on the grid that all hold it, and a mark that it returns has such a run.
\<close>

theorem computeWinner_lines:
  assumes "0 < winLength"
  shows "(computeWinner b sz winLength = None \<longleftrightarrow> (\<forall>m. \<not> has_line b sz winLength m)) \<and>
         (\<forall>m. computeWinner b sz winLength = Some m \<longrightarrow> has_line b sz winLength m) \<and>
         (srv_computeWinner b sz winLength = None \<longleftrightarrow> (\<forall>m. \<not> has_line b sz winLength m)) \<and>
         (\<forall>m. srv_computeWinner b sz winLength = Some m \<longrightarrow> has_line b sz winLength m)"
  unfolding srv_computeWinner_eq
  using computeWinner_None_iff[OF assms] computeWinner_sound[OF assms] by blast

theorem computeWinner_lines_witness:
  "(0::int) < 3 \<and>
   computeWinner [None, None, Some MarkO, Some MarkX, Some MarkO, None, Some MarkO, Some MarkX, None] 3 3
     = Some MarkO \<and>
   has_line [None, None, Some MarkO, Some MarkX, Some MarkO, None, Some MarkO, Some MarkX, None] 3 3 MarkO"
proof -
  have w: "(0::int) < 3" by simp
  have c: "computeWinner [None, None, Some MarkO, Some MarkX, Some MarkO, None, Some MarkO, Some MarkX, None] 3 3
     = Some MarkO" by code_simp
  from computeWinner_lines[OF w] c w show ?thesis by blast
qed

text \<open>
  Claim C1 as stated, for every \<open>winLength\<close>, fails below 1. With \<open>winLength\<close> -1
  the comparison loop does not run, so the single \<open>'X'\<close> of a 2 by 2 board is
  returned as the winner, and no run has -1 cells. With \<open>winLength\<close> 0 a run has no
  cell, so that every mark has a run on the empty 1 by 1 board, and no winner is
  returned.
\<close>

theorem computeWinner_lines_counterexample:
  "computeWinner [Some MarkX, None, None, None] 2 (-1) = Some MarkX \<and>
   \<not> has_line [Some MarkX, None, None, None] 2 (-1) MarkX \<and>
   computeWinner [None] 1 0 = None \<and> has_line [None] 1 0 MarkX"
  by code_simp

section \<open>Relabelling the marks\<close>

lemma swap_mark_eq_iff: "swap_mark a = swap_mark c \<longleftrightarrow> a = c"
  by (cases a; cases c) simp_all

lemma js_get_swap:
  "js_get (swap_board b) i = map_option (map_option swap_mark) (js_get b i)"
  by (auto simp: js_get_def swap_board_def nat_less_iff)

lemma js_get_swap_eq:
  "js_get (swap_board b) i = Some (Some (swap_mark v)) \<longleftrightarrow> js_get b i = Some (Some v)"
  by (cases "js_get b i"; cases "the (js_get b i)") (auto simp: js_get_swap swap_mark_eq_iff)

lemma winAt_swap:
  "winAt (swap_board b) w i0 step = map_option swap_mark (winAt b w i0 step)"
proof (cases "js_get b i0")
  case None
  then show ?thesis by (simp add: winAt_def js_get_swap)
next
  case (Some c)
  show ?thesis
  proof (cases c)
    case None
    with Some show ?thesis by (simp add: winAt_def js_get_swap)
  next
    case (Some v)
    with \<open>js_get b i0 = Some c\<close> have g: "js_get b i0 = Some (Some v)" by simp
    then have g': "js_get (swap_board b) i0 = Some (Some (swap_mark v))"
      by (simp add: js_get_swap)
    show ?thesis
      unfolding winAt_def g g' by (simp add: js_get_swap_eq)
  qed
qed

lemma scanRows_swap: "scanRows (swap_board b) sz w = map_option swap_mark (scanRows b sz w)"
  unfolding scanRows_def winAt_swap first_some_map_option[symmetric]
  by (simp add: case_prod_unfold)

lemma scanCols_swap: "scanCols (swap_board b) sz w = map_option swap_mark (scanCols b sz w)"
  unfolding scanCols_def winAt_swap first_some_map_option[symmetric]
  by (simp add: case_prod_unfold)

lemma scanDiagDR_swap: "scanDiagDR (swap_board b) sz w = map_option swap_mark (scanDiagDR b sz w)"
  unfolding scanDiagDR_def winAt_swap first_some_map_option[symmetric]
  by (simp add: case_prod_unfold)

lemma scanDiagDL_swap: "scanDiagDL (swap_board b) sz w = map_option swap_mark (scanDiagDL b sz w)"
  unfolding scanDiagDL_def winAt_swap first_some_map_option[symmetric]
  by (simp add: case_prod_unfold)

text \<open>
  Claim C7. For every board, size and win length, \<open>computeWinner\<close> on the board with
  the two marks swapped in every cell returns the swap of what it returns on the board
  itself; none stays none.
\<close>

theorem computeWinner_swap:
  "computeWinner (swap_board b) sz winLength = map_option swap_mark (computeWinner b sz winLength)"
  by (simp add: computeWinner_def scanRows_swap scanCols_swap scanDiagDR_swap scanDiagDL_swap)

theorem computeWinner_swap_witness:
  "computeWinner (swap_board [Some MarkO, Some MarkX, None, Some MarkO, Some MarkX, None, Some MarkO, None, None]) 3 3
     = Some MarkX"
proof -
  have "computeWinner [Some MarkO, Some MarkX, None, Some MarkO, Some MarkX, None, Some MarkO, None, None] 3 3
     = Some MarkO" by code_simp
  then show ?thesis
    using computeWinner_swap[of "[Some MarkO, Some MarkX, None, Some MarkO, Some MarkX, None, Some MarkO, None, None]" 3 3]
    by simp
qed

section \<open>The move selector\<close>

lemma findImmediateMove_find:
  "findImmediateMove b sz w p = List.find (wins_at b sz w p) [0..<length b]"
proof -
  have "first_some (\<lambda>i. if b ! i \<noteq> None then None
                      else (let next = b[i := Some p]
                            in if computeWinner next sz w = Some p then Some i
                               else None)) [0..<length b]
       = first_some (\<lambda>i. if wins_at b sz w p i then Some i else None) [0..<length b]"
    by (rule first_some_cong) (auto simp: wins_at_def)
  then show ?thesis
    by (simp add: findImmediateMove_def first_some_find)
qed

lemma findImmediateMove_Some_iff:
  "findImmediateMove b sz w p = Some i \<longleftrightarrow>
     wins_at b sz w p i \<and> (\<forall>j<i. \<not> wins_at b sz w p j)"
  unfolding findImmediateMove_find find_upt_Some_iff by (auto simp: wins_at_def)

lemma findImmediateMove_None_iff:
  "findImmediateMove b sz w p = None \<longleftrightarrow> (\<forall>i. \<not> wins_at b sz w p i)"
  unfolding findImmediateMove_find find_None_iff by (auto simp: wins_at_def)

lemma bestStep_snd:
  "snd (foldl (bestStep b sz w ci) st xs) \<in> insert (snd st) (set xs)"
proof (induction xs arbitrary: st)
  case Nil
  show ?case by simp
next
  case (Cons x xs)
  have "snd (bestStep b sz w ci st x) = snd st \<or> snd (bestStep b sz w ci st x) = x"
    by (simp add: bestStep_def Let_def)
  with Cons[of "bestStep b sz w ci st x"] show ?case by auto
qed

lemma getSmartAiMove_Some:
  assumes "getSmartAiMove b sz w = Some i"
  shows "i < length b \<and> b ! i = None"
proof (cases "findImmediateMove b sz w MarkO")
  case (Some k)
  with assms have "i = k" by (simp add: getSmartAiMove_def)
  with Some show ?thesis by (simp add: findImmediateMove_Some_iff wins_at_def)
next
  case None
  note n1 = this
  show ?thesis
  proof (cases "findImmediateMove b sz w MarkX")
    case (Some k)
    with n1 assms have "i = k" by (simp add: getSmartAiMove_def)
    with Some show ?thesis by (simp add: findImmediateMove_Some_iff wins_at_def)
  next
    case None
    define empty where "empty = filter (\<lambda>i. b ! i = None) [0..<length b]"
    from assms n1 None have ne: "empty \<noteq> []"
      and i: "i = snd (foldl (bestStep b sz w (getCenterIndex sz)) (NegInfinity, hd empty) empty)"
      by (auto simp: getSmartAiMove_def Let_def empty_def split: if_splits)
    from bestStep_snd[of b sz w "getCenterIndex sz" "(NegInfinity, hd empty)" empty] i ne
    have "i \<in> set empty" by auto
    then show ?thesis by (simp add: empty_def)
  qed
qed

lemma getSmartAiMove_None_iff:
  "getSmartAiMove b sz w = None \<longleftrightarrow> (\<forall>i<length b. b ! i \<noteq> None)"
proof
  assume h: "getSmartAiMove b sz w = None"
  then have "filter (\<lambda>i. b ! i = None) [0..<length b] = []"
    by (auto simp: getSmartAiMove_def Let_def split: option.splits if_splits)
  then show "\<forall>i<length b. b ! i \<noteq> None"
    by (auto simp: filter_empty_conv)
next
  assume h: "\<forall>i<length b. b ! i \<noteq> None"
  then have "findImmediateMove b sz w p = None" for p
    by (simp add: findImmediateMove_None_iff wins_at_def)
  moreover from h have "filter (\<lambda>i. b ! i = None) [0..<length b] = []"
    by (auto simp: filter_empty_conv)
  ultimately show "getSmartAiMove b sz w = None"
    by (simp add: getSmartAiMove_def)
qed

text \<open>
  Claim C2. For every board of length \<open>size * size\<close>, an index returned by
  \<open>getSmartAiMove\<close> is the index of a cell of the board that is empty, and
  \<open>getSmartAiMove\<close> returns none if and only if no cell of the board is empty.
\<close>

theorem getSmartAiMove_empty_cell:
  assumes "int (length b) = sz * sz"
  shows "(\<forall>i. getSmartAiMove b sz winLength = Some i \<longrightarrow> i < length b \<and> b ! i = None) \<and>
         (getSmartAiMove b sz winLength = None \<longleftrightarrow> (\<forall>i<length b. b ! i \<noteq> None))"
  using getSmartAiMove_Some[of b sz winLength] getSmartAiMove_None_iff[of b sz winLength]
  by blast

theorem getSmartAiMove_empty_cell_witness:
  "int (length [None, None, None, None, Some MarkX, None, None, None, None]) = 3 * 3 \<and>
   getSmartAiMove [None, None, None, None, Some MarkX, None, None, None, None] 3 3 = Some 0 \<and>
   0 < length [None, None, None, None, Some MarkX, None, None, None, None] \<and>
   [None, None, None, None, Some MarkX, None, None, None, None] ! 0 = None"
proof -
  have l: "int (length [None, None, None, None, Some MarkX, None, None, None, None]) = 3 * 3"
    by simp
  have g: "getSmartAiMove [None, None, None, None, Some MarkX, None, None, None, None] 3 3 = Some 0"
    by code_simp
  from getSmartAiMove_empty_cell[OF l, of 3] g l show ?thesis by blast
qed

text \<open>
  Claim C3. For every board on which at least one empty cell, when filled with the mark
  \<open>'O'\<close> of the computer, makes \<open>computeWinner\<close> return \<open>'O'\<close>,
  \<open>getSmartAiMove\<close> returns the lowest index of such a cell.
\<close>

theorem getSmartAiMove_immediate_win:
  assumes "\<exists>i. wins_at b sz winLength MarkO i"
  shows "\<exists>k. getSmartAiMove b sz winLength = Some k \<and> wins_at b sz winLength MarkO k \<and>
             (\<forall>j<k. \<not> wins_at b sz winLength MarkO j)"
proof -
  from assms have "findImmediateMove b sz winLength MarkO \<noteq> None"
    by (simp add: findImmediateMove_None_iff)
  then obtain k where k: "findImmediateMove b sz winLength MarkO = Some k" by auto
  then have "getSmartAiMove b sz winLength = Some k" by (simp add: getSmartAiMove_def)
  with k show ?thesis by (simp add: findImmediateMove_Some_iff)
qed

theorem getSmartAiMove_immediate_win_witness:
  "(\<exists>i. wins_at [Some MarkX, None, Some MarkX, None, Some MarkO, Some MarkO, None, None, None] 3 3 MarkO i) \<and>
   (\<exists>k. getSmartAiMove [Some MarkX, None, Some MarkX, None, Some MarkO, Some MarkO, None, None, None] 3 3 = Some k \<and>
        wins_at [Some MarkX, None, Some MarkX, None, Some MarkO, Some MarkO, None, None, None] 3 3 MarkO k \<and>
        (\<forall>j<k. \<not> wins_at [Some MarkX, None, Some MarkX, None, Some MarkO, Some MarkO, None, None, None] 3 3 MarkO j))"
proof -
  have "wins_at [Some MarkX, None, Some MarkX, None, Some MarkO, Some MarkO, None, None, None] 3 3 MarkO 3"
    by code_simp
  then have h: "\<exists>i. wins_at [Some MarkX, None, Some MarkX, None, Some MarkO, Some MarkO, None, None, None] 3 3 MarkO i" ..
  from getSmartAiMove_immediate_win[OF h] h show ?thesis by blast
qed

text \<open>
  Claim C4. For every board on which no empty cell filled with the mark \<open>'O'\<close> of the
  computer makes \<open>computeWinner\<close> return \<open>'O'\<close>, but at least one empty cell filled
  with the mark \<open>'X'\<close> of the opponent makes \<open>computeWinner\<close> return \<open>'X'\<close>,
  \<open>getSmartAiMove\<close> returns the lowest index of such a cell.
\<close>

theorem getSmartAiMove_immediate_block:
  assumes "\<forall>i. \<not> wins_at b sz winLength MarkO i"
    and "\<exists>i. wins_at b sz winLength MarkX i"
  shows "\<exists>k. getSmartAiMove b sz winLength = Some k \<and> wins_at b sz winLength MarkX k \<and>
             (\<forall>j<k. \<not> wins_at b sz winLength MarkX j)"
proof -
  from assms(1) have n: "findImmediateMove b sz winLength MarkO = None"
    by (simp add: findImmediateMove_None_iff)
  from assms(2) have "findImmediateMove b sz winLength MarkX \<noteq> None"
    by (simp add: findImmediateMove_None_iff)
  then obtain k where k: "findImmediateMove b sz winLength MarkX = Some k" by auto
  with n have "getSmartAiMove b sz winLength = Some k" by (simp add: getSmartAiMove_def)
  with k show ?thesis by (simp add: findImmediateMove_Some_iff)
qed

theorem getSmartAiMove_immediate_block_witness:
  "(\<forall>i. \<not> wins_at [Some MarkX, None, None, Some MarkO, Some MarkX, None, None, None, None] 3 3 MarkO i) \<and>
   (\<exists>i. wins_at [Some MarkX, None, None, Some MarkO, Some MarkX, None, None, None, None] 3 3 MarkX i) \<and>
   (\<exists>k. getSmartAiMove [Some MarkX, None, None, Some MarkO, Some MarkX, None, None, None, None] 3 3 = Some k \<and>
        wins_at [Some MarkX, None, None, Some MarkO, Some MarkX, None, None, None, None] 3 3 MarkX k \<and>
        (\<forall>j<k. \<not> wins_at [Some MarkX, None, None, Some MarkO, Some MarkX, None, None, None, None] 3 3 MarkX j))"
proof -
  let ?b = "[Some MarkX, None, None, Some MarkO, Some MarkX, None, None, None, None]"
  have "findImmediateMove ?b 3 3 MarkO = None" by code_simp
  then have o: "\<forall>i. \<not> wins_at ?b 3 3 MarkO i"
    unfolding findImmediateMove_None_iff .
  have "wins_at ?b 3 3 MarkX 8" by code_simp
  then have x: "\<exists>i. wins_at ?b 3 3 MarkX i" ..
  from getSmartAiMove_immediate_block[OF o x] o x show ?thesis by blast
qed

text \<open>
  Claim C5, amended. On the board of size 3 and win length 3 with \<open>'X'\<close> at the
  indices 0 and 1, \<open>'O'\<close> at the indices 3 and 4 and every other cell empty,
  \<open>getSmartAiMove\<close>, in the user interface and in the server, returns the index 5:
  the computer completes its own row 3, 4, 5, and the win is looked for before the
  block.
\<close>

theorem getSmartAiMove_scenario:
  "getSmartAiMove [Some MarkX, Some MarkX, None, Some MarkO, Some MarkO, None, None, None, None] 3 3 = Some 5 \<and>
   srv_getSmartAiMove [Some MarkX, Some MarkX, None, Some MarkO, Some MarkO, None, None, None, None] 3 3 = Some 5"
  by code_simp

text \<open>
  Claim C5 as stated expects the index 2, the block of the row 0, 1, 2 of
  \<open>'X'\<close>; \<open>getSmartAiMove\<close> does not return it.
\<close>

theorem getSmartAiMove_scenario_counterexample:
  "getSmartAiMove [Some MarkX, Some MarkX, None, Some MarkO, Some MarkO, None, None, None, None] 3 3 \<noteq> Some 2"
  by code_simp

text \<open>
  Claim C10. \<open>getSmartAiMove\<close> does not look for a winner on the board it is given:
  for every board that holds a completed line and still has an empty cell,
  \<open>getSmartAiMove\<close>, in the user interface and in the server, returns the index of
  an empty cell.
\<close>

theorem getSmartAiMove_won_board:
  assumes "computeWinner b sz winLength \<noteq> None"
    and "\<exists>i<length b. b ! i = None"
  shows "(\<exists>k. getSmartAiMove b sz winLength = Some k \<and> k < length b \<and> b ! k = None) \<and>
         (\<exists>k. srv_getSmartAiMove b sz winLength = Some k \<and> k < length b \<and> b ! k = None)"
proof -
  from assms(2) have "getSmartAiMove b sz winLength \<noteq> None"
    by (simp add: getSmartAiMove_None_iff)
  then obtain k where "getSmartAiMove b sz winLength = Some k" by auto
  with getSmartAiMove_Some[of b sz winLength k] show ?thesis
    by (simp add: srv_getSmartAiMove_eq)
qed

theorem getSmartAiMove_won_board_witness:
  "computeWinner [Some MarkX, Some MarkX, Some MarkX, Some MarkO, Some MarkO, None, None, None, None] 3 3 \<noteq> None \<and>
   (\<exists>i<length [Some MarkX, Some MarkX, Some MarkX, Some MarkO, Some MarkO, None, None, None, None].
      [Some MarkX, Some MarkX, Some MarkX, Some MarkO, Some MarkO, None, None, None, None] ! i = None) \<and>
   (\<exists>k. getSmartAiMove [Some MarkX, Some MarkX, Some MarkX, Some MarkO, Some MarkO, None, None, None, None] 3 3 = Some k \<and>
        k < length [Some MarkX, Some MarkX, Some MarkX, Some MarkO, Some MarkO, None, None, None, None] \<and>
        [Some MarkX, Some MarkX, Some MarkX, Some MarkO, Some MarkO, None, None, None, None] ! k = None)"
proof -
  let ?b = "[Some MarkX, Some MarkX, Some MarkX, Some MarkO, Some MarkO, None, None, None, None]"
  have "computeWinner ?b 3 3 = Some MarkX" by code_simp
  then have w: "computeWinner ?b 3 3 \<noteq> None" by simp
  have "5 < length ?b \<and> ?b ! 5 = None" by simp
  then have e: "\<exists>i<length ?b. ?b ! i = None" by (rule exI[of _ 5])
  from getSmartAiMove_won_board[OF w e] w e show ?thesis by blast
qed

section \<open>The score of a cell\<close>

lemma js_rem_nonneg: "0 \<le> a \<Longrightarrow> 0 < b \<Longrightarrow> js_rem a b = a mod b"
  by (cases "a = 0") (simp_all add: js_rem_def)

lemma center_div: "0 < sz \<Longrightarrow> getCenterIndex sz div sz = sz div 2"
  by (simp add: getCenterIndex_def Let_def)

lemma center_rem: "0 < sz \<Longrightarrow> js_rem (getCenterIndex sz) sz = sz div 2"
proof -
  assume sz: "0 < sz"
  then have "0 \<le> getCenterIndex sz"
    by (simp add: getCenterIndex_def Let_def)
  with sz have "js_rem (getCenterIndex sz) sz = getCenterIndex sz mod sz"
    by (rule js_rem_nonneg[rotated])
  also from sz have "\<dots> = sz div 2"
    by (simp add: getCenterIndex_def Let_def)
  finally show ?thesis .
qed

lemma pos_of_eq_idx:
  assumes "0 < sz" and "0 \<le> snd q" and "snd q < sz"
  shows "pos_of sz q = idx \<longleftrightarrow> q = (idx div sz, idx mod sz)"
proof
  assume "pos_of sz q = idx"
  then have i: "idx = fst q * sz + snd q" by (simp add: pos_of_def)
  from assms have "idx div sz = fst q" "idx mod sz = snd q"
    unfolding i by simp_all
  then show "q = (idx div sz, idx mod sz)" by (cases q) simp
next
  assume "q = (idx div sz, idx mod sz)"
  then show "pos_of sz q = idx" by (simp add: pos_of_def)
qed

lemma count_fold:
  assumes "0 < sz" and "\<forall>q\<in>set rcs. 0 \<le> snd q \<and> snd q < sz"
  shows "foldl (countStep b idx) (o0, x0) (map (pos_of sz) rcs) =
    (o0 + int (length (filter (\<lambda>q. q = (idx div sz, idx mod sz) \<or> js_get b (fst q * sz + snd q) = Some (Some MarkO)) rcs)),
     x0 + int (length (filter (\<lambda>q. q \<noteq> (idx div sz, idx mod sz) \<and> js_get b (fst q * sz + snd q) = Some (Some MarkX)) rcs)))"
  using assms(2)
proof (induction rcs arbitrary: o0 x0)
  case Nil
  show ?case by simp
next
  case (Cons q rcs)
  from Cons.prems have q: "0 \<le> snd q" "snd q < sz" by simp_all
  note e = pos_of_eq_idx[OF assms(1) q, of idx]
  have step: "countStep b idx (o0, x0) (pos_of sz q) =
      (if q = (idx div sz, idx mod sz) \<or> js_get b (fst q * sz + snd q) = Some (Some MarkO) then (o0 + 1, x0)
       else if js_get b (fst q * sz + snd q) = Some (Some MarkX) then (o0, x0 + 1) else (o0, x0))"
    unfolding countStep_def Let_def e by (auto simp: pos_of_def)
  from Cons.prems have "\<forall>q\<in>set rcs. 0 \<le> snd q \<and> snd q < sz" by simp
  note ih = Cons.IH[OF this]
  show ?case
    by (simp add: step ih)
qed

lemma window_rcs:
  assumes "0 < sz" and "0 \<le> idx"
  shows "map (\<lambda>k. (idx div sz + (t + k) * fst d, js_rem idx sz + (t + k) * snd d)) [0..w - 1]
         = window_of w d (start_at sz d idx t)"
  by (simp add: window_of_def start_at_def js_rem_nonneg[OF assms(2,1)] algebra_simps)

lemma windowCells_eq:
  assumes "0 < sz" and "0 \<le> idx"
  shows "windowCells sz w idx d t =
     (if on_grid sz (window_of w d (start_at sz d idx t))
      then Some (map (pos_of sz) (window_of w d (start_at sz d idx t))) else None)"
proof -
  have a: "list_ex (\<lambda>(rr, cc). rr < 0 \<or> rr \<ge> sz \<or> cc < 0 \<or> cc \<ge> sz) rcs = (\<not> on_grid sz rcs)" for rcs
    by (induction rcs) (auto simp: on_grid_def in_grid_def)
  have b: "map (\<lambda>(rr, cc). rr * sz + cc) rcs = map (pos_of sz) rcs" for rcs
    by (simp add: pos_of_def case_prod_unfold)
  show ?thesis
    unfolding windowCells_def window_rcs[OF assms] Let_def a b by simp
qed

lemma idx_in_window:
  assumes "0 < sz" and "t \<in> {- (w - 1)..0}"
  shows "idx \<in> set (map (pos_of sz) (window_of w d (start_at sz d idx t)))"
proof -
  from assms(2) have k: "- t \<in> {0..w - 1}" by auto
  have "pos_of sz (fst (start_at sz d idx t) + (- t) * fst d, snd (start_at sz d idx t) + (- t) * snd d) = idx"
    by (simp add: pos_of_def start_at_def)
  with k show ?thesis
    unfolding window_of_def set_map set_upto by (metis (no_types, lifting) image_eqI)
qed

lemma windowScore_value:
  "windowScore w (int (length (filter (\<lambda>q. q = p \<or> js_get b (fst q * sz + snd q) = Some (Some MarkO)) cells)),
                  int (length (filter (\<lambda>q. q \<noteq> p \<and> js_get b (fst q * sz + snd q) = Some (Some MarkX)) cells)))
   = window_value b sz w p cells"
  by (simp add: windowScore_def window_value_def Let_def power2_eq_square)

lemma windowDelta_eq:
  assumes "0 < sz" and "0 \<le> idx" and "t \<in> {- (w - 1)..0}"
  shows "windowDelta b sz w idx d t =
     (if on_grid sz (window_of w d (start_at sz d idx t))
      then window_value b sz w (idx div sz, idx mod sz) (window_of w d (start_at sz d idx t)) else 0)"
proof (cases "on_grid sz (window_of w d (start_at sz d idx t))")
  case False
  then show ?thesis by (simp add: windowDelta_def windowCells_eq[OF assms(1,2)])
next
  case True
  then have g: "\<forall>q\<in>set (window_of w d (start_at sz d idx t)). 0 \<le> snd q \<and> snd q < sz"
    by (auto simp: on_grid_def in_grid_def list_all_iff)
  from True have "windowDelta b sz w idx d t =
      windowScore w (foldl (countStep b idx) (0, 0) (map (pos_of sz) (window_of w d (start_at sz d idx t))))"
    using idx_in_window[OF assms(1,3), of idx d]
    by (simp add: windowDelta_def windowCells_eq[OF assms(1,2)])
  also have "\<dots> = window_value b sz w (idx div sz, idx mod sz) (window_of w d (start_at sz d idx t))"
    unfolding count_fold[OF assms(1) g] by (simp add: windowScore_value)
  finally show ?thesis using True by simp
qed

lemma distinct_starts: "distinct (concat (map (\<lambda>r0. map (\<lambda>c0. (r0, c0)) [0..sz - 1]) [0..sz - 1]))"
  using distinct_product[of "[0..sz - 1]" "[0..sz - 1]"]
  by (simp add: product_concat_map)

lemma set_windows_through:
  "set (windows_through sz w d p) =
     {s. fst s \<in> {0..sz - 1} \<and> snd s \<in> {0..sz - 1} \<and> on_grid sz (window_of w d s) \<and> p \<in> set (window_of w d s)}"
proof -
  have "set (concat (map (\<lambda>r0. map (\<lambda>c0. (r0, c0)) [0..sz - 1]) [0..sz - 1])) = {0..sz - 1} \<times> {0..sz - 1}"
    using set_product[of "[0..sz - 1]" "[0..sz - 1]"] by (simp add: product_concat_map)
  then show ?thesis
    unfolding windows_through_def set_filter on_grid_def by auto
qed

lemma start_image:
  assumes "0 < sz"
  shows "start_at sz d idx ` {t \<in> {- (w - 1)..0}. on_grid sz (window_of w d (start_at sz d idx t))}
         = set (windows_through sz w d (idx div sz, idx mod sz))"
  (is "?g ` ?A = ?B")
proof (intro equalityI subsetI)
  fix s assume "s \<in> ?g ` ?A"
  then obtain t where t: "t \<in> {- (w - 1)..0}" and ok: "on_grid sz (window_of w d (?g t))" and s: "s = ?g t"
    by auto
  from t have k: "- t \<in> {0..w - 1}" and z: "0 \<in> {0..w - 1}" by auto
  have "(fst (?g t) + (- t) * fst d, snd (?g t) + (- t) * snd d) = (idx div sz, idx mod sz)"
    by (simp add: start_at_def)
  with k have p: "(idx div sz, idx mod sz) \<in> set (window_of w d (?g t))"
    unfolding window_of_def set_map set_upto by (metis (no_types, lifting) image_eqI)
  from z have "(fst (?g t) + 0 * fst d, snd (?g t) + 0 * snd d) \<in> set (window_of w d (?g t))"
    unfolding window_of_def set_map set_upto by (rule imageI)
  then have "?g t \<in> set (window_of w d (?g t))" by simp
  with ok have "in_grid sz (fst (?g t)) (snd (?g t))"
    by (auto simp: on_grid_def list_all_iff)
  then have "fst (?g t) \<in> {0..sz - 1} \<and> snd (?g t) \<in> {0..sz - 1}"
    by (auto simp: in_grid_def)
  with ok p s show "s \<in> ?B"
    unfolding set_windows_through by simp
next
  fix s assume "s \<in> ?B"
  then have ok: "on_grid sz (window_of w d s)" and p: "(idx div sz, idx mod sz) \<in> set (window_of w d s)"
    unfolding set_windows_through by simp_all
  from p obtain k where k: "k \<in> {0..w - 1}"
    and e: "(idx div sz, idx mod sz) = (fst s + k * fst d, snd s + k * snd d)"
    unfolding window_of_def set_map set_upto by auto
  from e have "?g (- k) = s"
    by (cases s) (simp add: start_at_def)
  moreover from k have "- k \<in> {- (w - 1)..0}" by auto
  ultimately show "s \<in> ?g ` ?A" using ok by force
qed

lemma start_inj:
  assumes "fst d \<noteq> 0 \<or> snd d \<noteq> 0"
  shows "inj_on (start_at sz d idx) A"
  using assms by (auto simp: inj_on_def start_at_def)

lemma dir_sum:
  assumes "0 < sz" and "0 \<le> idx" and "fst d \<noteq> 0 \<or> snd d \<noteq> 0"
  shows "sum_list (map (windowDelta b sz w idx d) [- (w - 1)..0]) =
         (\<Sum>s\<leftarrow>windows_through sz w d (idx div sz, idx mod sz).
            window_value b sz w (idx div sz, idx mod sz) (window_of w d s))"
proof -
  let ?p = "(idx div sz, idx mod sz)"
  let ?g = "start_at sz d idx"
  let ?V = "\<lambda>s. window_value b sz w ?p (window_of w d s)"
  let ?ok = "\<lambda>t. on_grid sz (window_of w d (?g t))"
  have "sum_list (map (windowDelta b sz w idx d) [- (w - 1)..0]) =
        sum_list (map (\<lambda>t. if ?ok t then ?V (?g t) else 0) [- (w - 1)..0])"
    by (rule arg_cong[where f = sum_list], rule map_cong[OF refl])
       (simp add: windowDelta_eq[OF assms(1,2)])
  also have "\<dots> = (\<Sum>t\<in>{- (w - 1)..0}. if ?ok t then ?V (?g t) else 0)"
    by (simp add: sum_list_distinct_conv_sum_set)
  also have "\<dots> = (\<Sum>t\<in>{t \<in> {- (w - 1)..0}. ?ok t}. ?V (?g t))"
    by (rule sum.inter_filter[symmetric]) simp
  also have "\<dots> = sum ?V (?g ` {t \<in> {- (w - 1)..0}. ?ok t})"
    by (simp add: sum.reindex[OF start_inj[OF assms(3)]])
  also have "\<dots> = sum ?V (set (windows_through sz w d ?p))"
    by (simp only: start_image[OF assms(1)])
  also have "\<dots> = (\<Sum>s\<leftarrow>windows_through sz w d ?p. ?V s)"
    by (rule sum_list_distinct_conv_sum_set[symmetric])
       (simp add: windows_through_def distinct_starts)
  finally show ?thesis .
qed

lemma evaluateCell_ref:
  assumes "0 < sz" and "0 \<le> idx"
  shows "evaluateCell b sz w idx (getCenterIndex sz) = Num (score_ref b sz w idx)"
proof -
  have d: "sum_list (map (windowDelta b sz w idx d) [- (w - 1)..0]) =
         (\<Sum>s\<leftarrow>windows_through sz w d (idx div sz, idx mod sz).
            window_value b sz w (idx div sz, idx mod sz) (window_of w d s))"
    if "d \<in> set directions" for d
    using that by (intro dir_sum[OF assms]) (auto simp: directions_def)
  have "sum_list (map (\<lambda>d. sum_list (map (windowDelta b sz w idx d) [- (w - 1)..0])) directions)
      = (\<Sum>d\<leftarrow>directions. \<Sum>s\<leftarrow>windows_through sz w d (idx div sz, idx mod sz).
            window_value b sz w (idx div sz, idx mod sz) (window_of w d s))"
    by (rule arg_cong[where f = sum_list], rule map_cong[OF refl]) (rule d)
  then have s: "sum_list (map (\<lambda>d. sum_list (map (windowDelta b sz w idx d) [- (w - 1)..0]))
          [(0, 1), (1, 0), (1, 1), (1, -1)])
      = (\<Sum>d\<leftarrow>directions. \<Sum>s\<leftarrow>windows_through sz w d (idx div sz, idx mod sz).
            window_value b sz w (idx div sz, idx mod sz) (window_of w d s))"
    unfolding directions_def .
  from assms have z: "sz \<noteq> 0" by simp
  show ?thesis
    unfolding evaluateCell_def score_ref_def Let_def s center_div[OF assms(1)] center_rem[OF assms(1)]
      js_rem_nonneg[OF assms(2,1)]
    using z by simp
qed

lemma best_of_fold:
  assumes "xs \<noteq> []"
  shows "\<exists>k pre post. foldl (best_of f) (NegInfinity, x0) xs = (Num (f k), k) \<and>
           xs = pre @ k # post \<and> (\<forall>j\<in>set pre. f j < f k) \<and> (\<forall>j\<in>set post. f j \<le> f k)"
  using assms
proof (induction xs rule: rev_induct)
  case Nil
  then show ?case by simp
next
  case (snoc x ys)
  show ?case
  proof (cases "ys = []")
    case True
    then have "foldl (best_of f) (NegInfinity, x0) (ys @ [x]) = (Num (f x), x)"
      by (simp add: best_of_def)
    moreover from True have "ys @ [x] = [] @ x # []" by simp
    ultimately show ?thesis by fastforce
  next
    case False
    from snoc.IH[OF False] obtain k pre post where
      st: "foldl (best_of f) (NegInfinity, x0) ys = (Num (f k), k)" and
      ys: "ys = pre @ k # post" and pre: "\<forall>j\<in>set pre. f j < f k" and post: "\<forall>j\<in>set post. f j \<le> f k"
      by blast
    show ?thesis
    proof (cases "f x > f k")
      case True
      with st have "foldl (best_of f) (NegInfinity, x0) (ys @ [x]) = (Num (f x), x)"
        by (simp add: best_of_def)
      moreover have "ys @ [x] = ys @ x # []" by simp
      moreover from True ys pre post have "\<forall>j\<in>set ys. f j < f x" by fastforce
      ultimately show ?thesis by fastforce
    next
      case False
      with st have "foldl (best_of f) (NegInfinity, x0) (ys @ [x]) = (Num (f k), k)"
        by (simp add: best_of_def)
      moreover from ys have "ys @ [x] = pre @ k # (post @ [x])" by simp
      moreover from False post have "\<forall>j\<in>set (post @ [x]). f j \<le> f k" by auto
      ultimately show ?thesis using pre by blast
    qed
  qed
qed

lemma bestStep_best_of:
  assumes "0 < sz"
  shows "bestStep b sz w (getCenterIndex sz) = best_of (\<lambda>i. score_ref b sz w (int i))"
  by (intro ext) (simp add: bestStep_def best_of_def Let_def evaluateCell_ref[OF assms])

lemma heuristic_tier:
  assumes "0 < sz"
    and "findImmediateMove b sz w MarkO = None" and "findImmediateMove b sz w MarkX = None"
    and "\<exists>i<length b. b ! i = None"
  shows "\<exists>k. getSmartAiMove b sz w = Some k \<and> k < length b \<and> b ! k = None \<and>
           (\<forall>j<length b. b ! j = None \<longrightarrow>
              score_ref b sz w (int j) \<le> score_ref b sz w (int k) \<and>
              (j < k \<longrightarrow> score_ref b sz w (int j) < score_ref b sz w (int k)))"
proof -
  define empty where "empty = filter (\<lambda>i. b ! i = None) [0..<length b]"
  let ?f = "\<lambda>i. score_ref b sz w (int i)"
  from assms(4) have ne: "empty \<noteq> []"
    by (auto simp: empty_def filter_empty_conv)
  from best_of_fold[OF ne, of ?f "hd empty"] obtain k pre post where
    st: "foldl (best_of ?f) (NegInfinity, hd empty) empty = (Num (?f k), k)" and
    xs: "empty = pre @ k # post" and pre: "\<forall>j\<in>set pre. ?f j < ?f k" and post: "\<forall>j\<in>set post. ?f j \<le> ?f k"
    by blast
  from assms(2,3) ne st have r: "getSmartAiMove b sz w = Some k"
    by (simp add: getSmartAiMove_def Let_def empty_def[symmetric] bestStep_best_of[OF assms(1)])
  from xs have "k \<in> set empty" by simp
  then have k: "k < length b" "b ! k = None" by (simp_all add: empty_def)
  have "sorted_wrt (<) empty"
    unfolding empty_def by (rule sorted_wrt_filter) simp
  then have ord: "\<forall>j\<in>set post. k < j"
    unfolding xs by (auto simp: sorted_wrt_append)
  have "score_ref b sz w (int j) \<le> score_ref b sz w (int k) \<and>
        (j < k \<longrightarrow> score_ref b sz w (int j) < score_ref b sz w (int k))"
    if "j < length b" and "b ! j = None" for j
  proof -
    from that have "j \<in> set empty" by (simp add: empty_def)
    then have "j \<in> set pre \<or> j = k \<or> j \<in> set post" unfolding xs by auto
    with pre post ord show ?thesis by fastforce
  qed
  with r k show ?thesis by blast
qed

text \<open>
  Claim C6. On a board of positive size, the score that \<open>evaluateCell\<close> computes
  for the cell of index \<open>i\<close> is the reference score: \<open>max(0, 10 - d)\<close> for the
  Manhattan distance \<open>d\<close> to the center \<open>(size div 2, size div 2)\<close>, plus the
  values of the windows of \<open>winLength\<close> cells on the grid, in the four directions,
  that contain the cell, plus the corner bonus. In the heuristic tier, that is when
  no empty cell is an immediate win for either mark and some cell is empty,
  \<open>getSmartAiMove\<close> returns an empty cell of greatest score, and every empty cell
  of lower index has a strictly smaller score.
\<close>

theorem evaluateCell_score:
  assumes "0 < sz"
  shows "evaluateCell b sz winLength (int i) (getCenterIndex sz) = Num (score_ref b sz winLength (int i)) \<and>
    ((\<forall>j. \<not> wins_at b sz winLength MarkO j) \<and> (\<forall>j. \<not> wins_at b sz winLength MarkX j) \<and>
     (\<exists>j<length b. b ! j = None) \<longrightarrow>
     (\<exists>k. getSmartAiMove b sz winLength = Some k \<and> k < length b \<and> b ! k = None \<and>
        (\<forall>j<length b. b ! j = None \<longrightarrow>
           score_ref b sz winLength (int j) \<le> score_ref b sz winLength (int k) \<and>
           (j < k \<longrightarrow> score_ref b sz winLength (int j) < score_ref b sz winLength (int k)))))"
proof -
  have "evaluateCell b sz winLength (int i) (getCenterIndex sz) = Num (score_ref b sz winLength (int i))"
    by (rule evaluateCell_ref[OF assms]) simp
  moreover have "\<exists>k. getSmartAiMove b sz winLength = Some k \<and> k < length b \<and> b ! k = None \<and>
        (\<forall>j<length b. b ! j = None \<longrightarrow>
           score_ref b sz winLength (int j) \<le> score_ref b sz winLength (int k) \<and>
           (j < k \<longrightarrow> score_ref b sz winLength (int j) < score_ref b sz winLength (int k)))"
    if "\<forall>j. \<not> wins_at b sz winLength MarkO j" and "\<forall>j. \<not> wins_at b sz winLength MarkX j"
      and "\<exists>j<length b. b ! j = None"
    using that heuristic_tier[OF assms, of b winLength]
    unfolding findImmediateMove_None_iff by blast
  ultimately show ?thesis by blast
qed

theorem evaluateCell_score_witness:
  "(0::int) < 3 \<and>
   evaluateCell [Some MarkX, None, None, None, Some MarkO, None, None, None, None] 3 3 (int 5) (getCenterIndex 3)
     = Num 334 \<and>
   (\<exists>k. getSmartAiMove [Some MarkX, None, None, None, Some MarkO, None, None, None, None] 3 3 = Some k \<and>
      (\<forall>j<length [Some MarkX, None, None, None, Some MarkO, None, None, None, None].
          [Some MarkX, None, None, None, Some MarkO, None, None, None, None] ! j = None \<longrightarrow>
          score_ref [Some MarkX, None, None, None, Some MarkO, None, None, None, None] 3 3 (int j)
            \<le> score_ref [Some MarkX, None, None, None, Some MarkO, None, None, None, None] 3 3 (int k)))"
proof -
  let ?b = "[Some MarkX, None, None, None, Some MarkO, None, None, None, None]"
  have z: "(0::int) < 3" by simp
  have "findImmediateMove ?b 3 3 MarkO = None" by code_simp
  then have o: "\<forall>j. \<not> wins_at ?b 3 3 MarkO j" unfolding findImmediateMove_None_iff .
  have "findImmediateMove ?b 3 3 MarkX = None" by code_simp
  then have x: "\<forall>j. \<not> wins_at ?b 3 3 MarkX j" unfolding findImmediateMove_None_iff .
  have "1 < length ?b \<and> ?b ! 1 = None" by simp
  then have e: "\<exists>j<length ?b. ?b ! j = None" by (rule exI[of _ 1])
  have v: "score_ref ?b 3 3 (int 5) = 334" by code_simp
  from evaluateCell_score[OF z, of ?b 3 5] o x e v z show ?thesis by auto
qed

section \<open>Loops that end\<close>










section \<open>The game logic of the server on integers\<close>




























section \<open>A loop that does not end\<close>





section \<open>The HTTP handlers\<close>







end
